theory Spec2Isabelle
  imports Main "HOL-Library.Word"
begin

unbundle bit_operations_syntax

section \<open>EcoStopBrakeStarter: the controller of EcoStopBrakeStarter.c (ATtiny13A)\<close>

subsection \<open>Constants\<close>

text \<open>
  The timing constants of the source, in milliseconds. The C type of the two counters of
  \<open>cranking\<close> is \<open>int\<close> (16 bits on the AVR); they are modelled as \<open>int\<close>, and
  \<open>cranking_loop_range\<close> below shows that they stay between 0 and 4000.
\<close>

definition POLLING_INTERVAL :: int where
  "POLLING_INTERVAL = 100"

definition CRANKING_MAX_TIME :: int where
  "CRANKING_MAX_TIME = 4000"

definition START_CHECK_DELAY_TIME :: int where
  "START_CHECK_DELAY_TIME = 500"

definition START_THRESHOLD_TIME :: int where
  "START_THRESHOLD_TIME = 500"

text \<open>
  Registers are 8 bits wide. The bit numbers come from the device header \<open>avr/io.h\<close> of
  avr-libc for the ATtiny13A, which the source includes: \<open>PINBn = PORTBn = DDBn = n\<close> and
  \<open>ACD = 7\<close>. \<open>BV\<close> is the macro \<open>_BV(n) = 1 << n\<close>.
\<close>

type_synonym reg = "8 word"

definition BV :: "nat \<Rightarrow> reg" where
  "BV n = push_bit n 1"

definition PINB0 :: nat where "PINB0 = 0"
definition PINB1 :: nat where "PINB1 = 1"
definition PINB2 :: nat where "PINB2 = 2"
definition PINB5 :: nat where "PINB5 = 5"
definition PORTB0 :: nat where "PORTB0 = 0"
definition PORTB1 :: nat where "PORTB1 = 1"
definition PORTB2 :: nat where "PORTB2 = 2"
definition PORTB3 :: nat where "PORTB3 = 3"
definition PORTB4 :: nat where "PORTB4 = 4"
definition DDB3 :: nat where "DDB3 = 3"
definition DDB4 :: nat where "DDB4 = 4"
definition ACD :: nat where "ACD = 7"

definition IN_DISABLE :: reg where
  "IN_DISABLE = BV PINB0"

definition IN_N :: reg where
  "IN_N = BV PINB1"

definition IN_BRAKE :: reg where
  "IN_BRAKE = BV PINB2"

definition IN_L :: reg where
  "IN_L = BV PINB5"

definition OUT_BRAKE :: reg where
  "OUT_BRAKE = BV PORTB3"

definition OUT_N :: reg where
  "OUT_N = BV PORTB4"

definition IO_DIR :: reg where
  "IO_DIR = BV DDB3 OR BV DDB4"

definition INPUT_PULL_UP :: reg where
  "INPUT_PULL_UP = BV PORTB0 OR BV PORTB1 OR BV PORTB2"

subsection \<open>The machine state and the input port\<close>

text \<open>
  The registers the program writes are fields of the state. \<open>PINB\<close> is a volatile input
  register: every read of it in the source is a read of the pins at that moment. The pins
  are a parameter \<open>pinb\<close> of every function that reads them: \<open>pinb k\<close> is the value
  returned by the \<open>k\<close>-th read since power-on, and \<open>reads\<close> counts the reads made so far.
  \<open>clock\<close> is the time spent in \<open>_delay_ms\<close>, in milliseconds.
\<close>

record mcu =
  PORTB :: reg
  DDRB :: reg
  ACSR :: reg
  reads :: nat
  clock :: int

type_synonym pins = "nat \<Rightarrow> reg"

definition read_PINB :: "pins \<Rightarrow> mcu \<Rightarrow> reg \<times> mcu" where
  "read_PINB pinb s = (pinb (reads s), s\<lparr>reads := Suc (reads s)\<rparr>)"

definition delay_ms :: "int \<Rightarrow> mcu \<Rightarrow> mcu" where
  "delay_ms ms s = s\<lparr>clock := clock s + ms\<rparr>"

subsection \<open>The signal readers\<close>

text \<open>Each reader reads \<open>PINB\<close> itself; the result is converted to \<open>bool\<close> (nonzero is true).\<close>

definition isDisabled :: "pins \<Rightarrow> mcu \<Rightarrow> bool \<times> mcu" where
  "isDisabled pinb s = (let (v, s') = read_PINB pinb s in (v AND IN_DISABLE \<noteq> 0, s'))"

definition isNeutral :: "pins \<Rightarrow> mcu \<Rightarrow> bool \<times> mcu" where
  "isNeutral pinb s = (let (v, s') = read_PINB pinb s in (v AND IN_N \<noteq> 0, s'))"

definition isBrakeReleased :: "pins \<Rightarrow> mcu \<Rightarrow> bool \<times> mcu" where
  "isBrakeReleased pinb s = (let (v, s') = read_PINB pinb s in (v AND IN_BRAKE \<noteq> 0, s'))"

definition isStarted :: "pins \<Rightarrow> mcu \<Rightarrow> bool \<times> mcu" where
  "isStarted pinb s = (let (v, s') = read_PINB pinb s in (\<not> (v AND IN_L \<noteq> 0), s'))"

subsection \<open>transferShiftPosition\<close>

text \<open>
  \<open>isDisabled() || isNeutral()\<close> short-circuits: the second read happens only when the
  first reader returned false. Clearing \<open>OUT_N\<close> reports neutral, setting it reports a
  position other than neutral.
\<close>

definition transferShiftPosition :: "pins \<Rightarrow> mcu \<Rightarrow> mcu" where
  "transferShiftPosition pinb s =
     (let (d, s1) = isDisabled pinb s in
      if d then s1\<lparr>PORTB := PORTB s1 AND NOT OUT_N\<rparr>
      else
        let (n, s2) = isNeutral pinb s1 in
        if n then s2\<lparr>PORTB := PORTB s2 AND NOT OUT_N\<rparr>
        else s2\<lparr>PORTB := PORTB s2 OR OUT_N\<rparr>)"

subsection \<open>cranking\<close>

text \<open>
  The \<open>for\<close> loop of \<open>cranking\<close>, with its two local variables as arguments. The result
  holds how the loop was left (\<open>True\<close>: by \<open>break\<close>, \<open>False\<close>: the loop condition
  failed), the value of \<open>cranking_time\<close> at that point, and the state.
  \<open>START_CHECK_DELAY_TIME >= cranking_time || !isStarted()\<close> short-circuits, so the pins
  are read only once \<open>cranking_time\<close> has passed the delay.
\<close>

function cranking_loop :: "pins \<Rightarrow> int \<Rightarrow> int \<Rightarrow> mcu \<Rightarrow> bool \<times> int \<times> mcu" where
  "cranking_loop pinb start_time cranking_time s =
     (if cranking_time < CRANKING_MAX_TIME then
        (if START_CHECK_DELAY_TIME \<ge> cranking_time + POLLING_INTERVAL then
           cranking_loop pinb 0 (cranking_time + POLLING_INTERVAL) (delay_ms POLLING_INTERVAL s)
         else if \<not> fst (isStarted pinb (delay_ms POLLING_INTERVAL s)) then
           cranking_loop pinb 0 (cranking_time + POLLING_INTERVAL)
             (snd (isStarted pinb (delay_ms POLLING_INTERVAL s)))
         else if START_THRESHOLD_TIME \<le> cranking_time + POLLING_INTERVAL
                   - (if start_time = 0 then cranking_time + POLLING_INTERVAL else start_time) then
           (True, cranking_time + POLLING_INTERVAL,
            snd (isStarted pinb (delay_ms POLLING_INTERVAL s)))
         else
           cranking_loop pinb
             (if start_time = 0 then cranking_time + POLLING_INTERVAL else start_time)
             (cranking_time + POLLING_INTERVAL)
             (snd (isStarted pinb (delay_ms POLLING_INTERVAL s))))
      else (False, cranking_time, s))"
  by pat_completeness auto
termination
  by (relation "measure (\<lambda>(pinb, start_time, cranking_time, s).
                  nat (CRANKING_MAX_TIME - cranking_time))")
     (auto simp: POLLING_INTERVAL_def CRANKING_MAX_TIME_def)

text \<open>The state in which the loop is entered: line 111 of the source.\<close>

definition cranking_entry :: "mcu \<Rightarrow> mcu" where
  "cranking_entry s = s\<lparr>PORTB := (PORTB s OR OUT_BRAKE) AND NOT OUT_N\<rparr>"

text \<open>How the loop of one call of \<open>cranking\<close> ends: exit path, \<open>cranking_time\<close>, state.\<close>

definition cranking_exit :: "pins \<Rightarrow> mcu \<Rightarrow> bool \<times> int \<times> mcu" where
  "cranking_exit pinb s = cranking_loop pinb 0 0 (cranking_entry s)"

definition cranking :: "pins \<Rightarrow> mcu \<Rightarrow> mcu" where
  "cranking pinb s =
     (let s1 = snd (snd (cranking_exit pinb s)) in s1\<lparr>PORTB := PORTB s1 AND NOT OUT_BRAKE\<rparr>)"

subsection \<open>init and main\<close>

definition init :: "pins \<Rightarrow> mcu \<Rightarrow> mcu" where
  "init pinb s =
     transferShiftPosition pinb
       (s\<lparr>ACSR := ACSR s OR BV ACD, DDRB := IO_DIR, PORTB := INPUT_PULL_UP\<rparr>)"

text \<open>The two local variables of \<open>main\<close> that live across iterations.\<close>

record ctl =
  isManualStarted :: bool
  lastInput :: reg

text \<open>
  The condition of the \<open>if\<close> of lines 182 to 186, evaluated left to right with the
  short-circuits of \<open>&&\<close> and \<open>||\<close>: \<open>flag\<close> is \<open>isManualStarted\<close> after its update,
  \<open>started\<close> and \<open>input\<close> are the locals of that name.
\<close>

definition restart_condition :: "pins \<Rightarrow> bool \<Rightarrow> bool \<Rightarrow> reg \<Rightarrow> reg \<Rightarrow> mcu \<Rightarrow> bool \<times> mcu" where
  "restart_condition pinb flag started lastIn input s =
     (if \<not> flag then (False, s)
      else if started then (False, s)
      else if (lastIn XOR input) AND IN_BRAKE \<noteq> 0 then
        (let (b, s1) = isBrakeReleased pinb s in
         if b then (True, s1) else isDisabled pinb s1)
      else isDisabled pinb s)"

text \<open>
  One iteration of the \<open>while (1)\<close> loop up to the point where \<open>cranking\<close> is or is not
  called (lines 171 to 187): the delay, the update of the flag, the snapshot \<open>input\<close> and
  the condition.
\<close>

record decision =
  d_started :: bool
  d_flag :: bool
  d_input :: reg
  d_fire :: bool
  d_state :: mcu

definition main_decide :: "pins \<Rightarrow> ctl \<times> mcu \<Rightarrow> decision" where
  "main_decide pinb cs =
     (let (c, s) = cs;
          s1 = delay_ms POLLING_INTERVAL s;
          (started, s2) = isStarted pinb s1;
          flag = (isManualStarted c \<or> started);
          (input, s3) = read_PINB pinb s2;
          (fire, s4) = restart_condition pinb flag started (lastInput c) input s3
      in \<lparr>d_started = started, d_flag = flag, d_input = input, d_fire = fire, d_state = s4\<rparr>)"

text \<open>The body of the \<open>if\<close> (lines 188 to 194): the call and the second look at the engine.\<close>

definition main_crank :: "pins \<Rightarrow> bool \<Rightarrow> mcu \<Rightarrow> bool \<times> mcu" where
  "main_crank pinb flag s =
     (let s1 = cranking pinb s;
          (started, s2) = isStarted pinb s1
      in (if \<not> started then False else flag, s2))"

text \<open>
  The iteration up to the update of \<open>lastInput\<close> (line 197), and the whole iteration,
  which ends with the call of \<open>transferShiftPosition\<close> (line 200).
\<close>

definition main_before_report :: "pins \<Rightarrow> ctl \<times> mcu \<Rightarrow> ctl \<times> mcu" where
  "main_before_report pinb cs =
     (let d = main_decide pinb cs;
          (flag, s5) = (if d_fire d then main_crank pinb (d_flag d) (d_state d)
                        else (d_flag d, d_state d))
      in (\<lparr>isManualStarted = flag, lastInput = d_input d\<rparr>, s5))"

definition main_iteration :: "pins \<Rightarrow> ctl \<times> mcu \<Rightarrow> ctl \<times> mcu" where
  "main_iteration pinb cs =
     (let (c, s) = main_before_report pinb cs in (c, transferShiftPosition pinb s))"

text \<open>\<open>main\<close> before its loop (lines 162 to 168), from the state at power-on.\<close>

definition main_start :: "pins \<Rightarrow> mcu \<Rightarrow> ctl \<times> mcu" where
  "main_start pinb s =
     (let (v, s1) = read_PINB pinb (init pinb s)
      in (\<lparr>isManualStarted = False, lastInput = v\<rparr>, s1))"

text \<open>The loop never ends; \<open>main_loop pinb n\<close> is the state after \<open>n\<close> iterations.\<close>

fun main_loop :: "pins \<Rightarrow> nat \<Rightarrow> ctl \<times> mcu \<Rightarrow> ctl \<times> mcu" where
  "main_loop pinb 0 cs = cs"
| "main_loop pinb (Suc n) cs = main_iteration pinb (main_loop pinb n cs)"

subsection \<open>What the pins and the outputs mean\<close>

text \<open>
  The four logical inputs held by one value of the port, with the polarities of the four
  readers, and the two outputs: the relay is driven by \<open>OUT_BRAKE\<close>, and
  \<open>transferShiftPosition\<close> reports neutral by clearing \<open>OUT_N\<close>.
\<close>

definition pin_disabled :: "reg \<Rightarrow> bool" where
  "pin_disabled v = (v AND IN_DISABLE \<noteq> 0)"

definition pin_neutral :: "reg \<Rightarrow> bool" where
  "pin_neutral v = (v AND IN_N \<noteq> 0)"

definition pin_brake_released :: "reg \<Rightarrow> bool" where
  "pin_brake_released v = (v AND IN_BRAKE \<noteq> 0)"

definition pin_started :: "reg \<Rightarrow> bool" where
  "pin_started v = (\<not> (v AND IN_L \<noteq> 0))"

definition relay_on :: "mcu \<Rightarrow> bool" where
  "relay_on s = (PORTB s AND OUT_BRAKE \<noteq> 0)"

definition reports_neutral :: "mcu \<Rightarrow> bool" where
  "reports_neutral s = (PORTB s AND OUT_N = 0)"

subsection \<open>Concrete runs\<close>

text \<open>
  Inputs on which the theorems below are exercised. \<open>power_on\<close> is a state at reset.
  The values of the port: bit 0 set is override on, bit 1 set is neutral, bit 2 set is
  brake released, bit 5 set is engine stopped.
  \<^item> \<open>pins_stopped\<close>: nothing active, the engine never runs.
  \<^item> \<open>pins_stall\<close>: the override is on all the time; the engine runs during the first
    iteration and is stopped from the second iteration on.
  \<^item> \<open>pins_restart\<close>: the engine runs, stops with the brake depressed, the brake is
    released in the third iteration, and the engine runs again from the first poll of
    \<open>cranking\<close> that looks at it.
  \<^item> \<open>pins_blip\<close>: the engine is seen running by the first five polls of a call of
    \<open>cranking\<close> that look at it, and never after.
  \<^item> \<open>pins_running\<close>: nothing active, the engine always runs.
  \<^item> \<open>pins_glitch\<close>: as \<open>pins_stopped\<close>, but the engine is seen running at read 3
    and the override is seen on at read 5.
  \<^item> \<open>pins_bounce\<close>: the engine runs with the brake released during the first
    iteration and is stopped from the second iteration on; the brake is released all the
    time but for read 8, the snapshot of the second iteration, where it shows depressed.
    The override is never on.
  \<^item> \<open>pins_shift\<close>: as \<open>pins_restart\<close>, but the lever is in neutral from the
    first poll of \<open>cranking\<close> on.
  \<^item> \<open>pins_restart_alt\<close>: the values of \<open>pins_restart\<close> at the reads 12 to 23, the
    reads of its third iteration, and other values before and after.
\<close>

definition power_on :: mcu where
  "power_on = \<lparr>PORTB = 0, DDRB = 0, ACSR = 0, reads = 0, clock = 0\<rparr>"

definition pins_stopped :: pins where
  "pins_stopped = (\<lambda>k. 32)"

definition pins_stall :: pins where
  "pins_stall = (\<lambda>k. if k < 5 then 1 else 33)"

definition pins_restart :: pins where
  "pins_restart = (\<lambda>k. if k < 7 then 0 else if k < 12 then 32 else if k < 15 then 36 else 4)"

definition pins_blip :: pins where
  "pins_blip = (\<lambda>k. if k < 5 then 0 else 32)"

definition pins_running :: pins where
  "pins_running = (\<lambda>k. 0)"

definition pins_glitch :: pins where
  "pins_glitch = (\<lambda>k. if k = 3 then 0 else if k = 5 then 33 else 32)"

definition pins_bounce :: pins where
  "pins_bounce = (\<lambda>k. if k < 7 then 4 else if k = 8 then 32 else 36)"

definition pins_shift :: pins where
  "pins_shift = (\<lambda>k. if k < 7 then 0 else if k < 12 then 32 else if k < 15 then 36 else 6)"

definition pins_restart_alt :: pins where
  "pins_restart_alt =
     (\<lambda>k. if k < 12 then 33 else if k < 15 then 36 else if k < 24 then 4 else 39)"

subsection \<open>Two runs that read the same values\<close>

text \<open>
  \<open>same_reads a b lo hi\<close>: the pins \<open>a\<close> and \<open>b\<close> return the same value at every
  read from the \<open>lo\<close>-th up to, and without, the \<open>hi\<close>-th.
\<close>

definition same_reads :: "pins \<Rightarrow> pins \<Rightarrow> nat \<Rightarrow> nat \<Rightarrow> bool" where
  "same_reads a b lo hi = (\<forall>i\<in>{lo..<hi}. a i = b i)"

section \<open>Basic facts\<close>

declare cranking_loop.simps [simp del]

lemmas timing_defs = POLLING_INTERVAL_def CRANKING_MAX_TIME_def START_CHECK_DELAY_TIME_def
  START_THRESHOLD_TIME_def

subsection \<open>Masks, readers and the delay\<close>

lemma mask_bit: "(w AND BV n \<noteq> 0) = bit w n" for w :: reg
  unfolding BV_def by (simp add: bit_iff_and_push_bit_not_eq_0)

lemma mask_bit0: "(w AND BV n = 0) = (\<not> bit w n)" for w :: reg
  using mask_bit [of w n] by blast

lemma relay_on_bit: "relay_on s = bit (PORTB s) 3"
  by (simp add: relay_on_def OUT_BRAKE_def PORTB3_def mask_bit)

lemma reports_neutral_bit: "reports_neutral s = (\<not> bit (PORTB s) 4)"
  by (simp add: reports_neutral_def OUT_N_def PORTB4_def mask_bit0)

lemma read_PINB_simps [simp]:
  "fst (read_PINB pinb s) = pinb (reads s)"
  "snd (read_PINB pinb s) = s\<lparr>reads := Suc (reads s)\<rparr>"
  by (simp_all add: read_PINB_def)

lemma isStarted_simps [simp]:
  "fst (isStarted pinb s) = pin_started (pinb (reads s))"
  "snd (isStarted pinb s) = s\<lparr>reads := Suc (reads s)\<rparr>"
  by (simp_all add: isStarted_def read_PINB_def pin_started_def)

lemma isDisabled_simps [simp]:
  "fst (isDisabled pinb s) = pin_disabled (pinb (reads s))"
  "snd (isDisabled pinb s) = s\<lparr>reads := Suc (reads s)\<rparr>"
  by (simp_all add: isDisabled_def read_PINB_def pin_disabled_def)

lemma isNeutral_simps [simp]:
  "fst (isNeutral pinb s) = pin_neutral (pinb (reads s))"
  "snd (isNeutral pinb s) = s\<lparr>reads := Suc (reads s)\<rparr>"
  by (simp_all add: isNeutral_def read_PINB_def pin_neutral_def)

lemma isBrakeReleased_simps [simp]:
  "fst (isBrakeReleased pinb s) = pin_brake_released (pinb (reads s))"
  "snd (isBrakeReleased pinb s) = s\<lparr>reads := Suc (reads s)\<rparr>"
  by (simp_all add: isBrakeReleased_def read_PINB_def pin_brake_released_def)

lemma delay_ms_simps [simp]:
  "PORTB (delay_ms ms s) = PORTB s"
  "reads (delay_ms ms s) = reads s"
  "clock (delay_ms ms s) = clock s + ms"
  by (simp_all add: delay_ms_def)

subsection \<open>The outputs\<close>

lemma transferShiftPosition_eq:
  "transferShiftPosition pinb s =
     (if pin_disabled (pinb (reads s)) then
        s\<lparr>reads := Suc (reads s), PORTB := PORTB s AND NOT OUT_N\<rparr>
      else if pin_neutral (pinb (Suc (reads s))) then
        s\<lparr>reads := Suc (Suc (reads s)), PORTB := PORTB s AND NOT OUT_N\<rparr>
      else s\<lparr>reads := Suc (Suc (reads s)), PORTB := PORTB s OR OUT_N\<rparr>)"
  by (simp add: transferShiftPosition_def split_beta Let_def)

lemma transferShiftPosition_relay [simp]:
  "relay_on (transferShiftPosition pinb s) = relay_on s"
  by (simp add: transferShiftPosition_eq relay_on_bit OUT_N_def BV_def PORTB4_def bit_simps)

lemma transferShiftPosition_neutral:
  "reports_neutral (transferShiftPosition pinb s) =
     (pin_disabled (pinb (reads s)) \<or> pin_neutral (pinb (Suc (reads s))))"
  by (simp add: transferShiftPosition_eq reports_neutral_bit OUT_N_def BV_def PORTB4_def bit_simps)

lemma cranking_loop_PORTB:
  "PORTB (snd (snd (cranking_loop pinb st ct s))) = PORTB s"
proof (induction pinb st ct s rule: cranking_loop.induct)
  case (1 pinb st ct s)
  then show ?case
    by (subst cranking_loop.simps) simp
qed

lemma cranking_loop_clock:
  "clock (snd (snd (cranking_loop pinb st ct s))) = clock s + (fst (snd (cranking_loop pinb st ct s)) - ct)"
proof (induction pinb st ct s rule: cranking_loop.induct)
  case (1 pinb st ct s)
  then show ?case
    by (subst (1 2) cranking_loop.simps) simp
qed

lemma cranking_loop_reads:
  "reads s \<le> reads (snd (snd (cranking_loop pinb st ct s)))"
proof (induction pinb st ct s rule: cranking_loop.induct)
  case (1 pinb st ct s)
  then show ?case
    by (subst cranking_loop.simps) (auto dest: Suc_leD)
qed

lemma cranking_entry_out:
  "relay_on (cranking_entry s)" "reports_neutral (cranking_entry s)"
  by (simp_all add: cranking_entry_def relay_on_bit reports_neutral_bit OUT_N_def OUT_BRAKE_def
        BV_def PORTB3_def PORTB4_def bit_simps)

lemma cranking_relay [simp]: "\<not> relay_on (cranking pinb s)"
  by (simp add: cranking_def Let_def relay_on_bit OUT_BRAKE_def BV_def PORTB3_def bit_simps)

lemma cranking_neutral [simp]: "reports_neutral (cranking pinb s)"
  using cranking_entry_out(2) [of s]
  by (simp add: cranking_def cranking_exit_def Let_def cranking_loop_PORTB reports_neutral_bit
        OUT_BRAKE_def BV_def PORTB3_def bit_simps)

lemma init_relay [simp]: "\<not> relay_on (init pinb s)"
  by (simp add: init_def)
     (simp add: relay_on_bit INPUT_PULL_UP_def BV_def PORTB0_def PORTB1_def PORTB2_def)

lemma restart_condition_PORTB [simp]:
  "PORTB (snd (restart_condition pinb flag started lastIn input s)) = PORTB s"
  by (simp add: restart_condition_def split_beta Let_def)

lemma main_decide_PORTB [simp]:
  "PORTB (d_state (main_decide pinb (c, s))) = PORTB s"
  by (simp add: main_decide_def split_beta Let_def)

lemma main_crank_relay [simp]: "\<not> relay_on (snd (main_crank pinb flag s))"
  using cranking_relay [of pinb s]
  by (simp add: main_crank_def split_beta Let_def relay_on_def)

lemma main_before_report_relay:
  "\<not> relay_on s \<Longrightarrow> \<not> relay_on (snd (main_before_report pinb (c, s)))"
  using main_crank_relay [of pinb "d_flag (main_decide pinb (c, s))" "d_state (main_decide pinb (c, s))"]
  by (simp add: main_before_report_def split_beta Let_def) (simp add: relay_on_def)

lemma main_iteration_relay:
  "\<not> relay_on (snd cs) \<Longrightarrow> \<not> relay_on (snd (main_iteration pinb cs))"
  using main_before_report_relay [of "snd cs" pinb "fst cs"]
  by (simp add: main_iteration_def split_beta)

lemma main_start_relay [simp]: "\<not> relay_on (snd (main_start pinb s))"
  using init_relay [of pinb s]
  by (simp add: main_start_def split_beta relay_on_def)

lemma main_loop_relay:
  "\<not> relay_on (snd cs) \<Longrightarrow> \<not> relay_on (snd (main_loop pinb n cs))"
  by (induction n) (simp_all add: main_iteration_relay)

subsection \<open>The decision and the flag\<close>

lemma brake_changed:
  "((a XOR b) AND IN_BRAKE \<noteq> 0) = (pin_brake_released a \<noteq> pin_brake_released b)"
  by (simp add: pin_brake_released_def IN_BRAKE_def mask_bit bit_simps)

lemma main_decide_simps [simp]:
  "d_started (main_decide pinb (c, s)) = pin_started (pinb (reads s))"
  "d_flag (main_decide pinb (c, s)) = (isManualStarted c \<or> pin_started (pinb (reads s)))"
  "d_input (main_decide pinb (c, s)) = pinb (Suc (reads s))"
  by (simp_all add: main_decide_def split_beta Let_def)

lemma main_decide_fire:
  "d_fire (main_decide pinb (c, s)) =
     (isManualStarted c \<and> \<not> pin_started (pinb (reads s)) \<and>
      (if pin_brake_released (lastInput c) \<noteq> pin_brake_released (pinb (Suc (reads s)))
       then pin_brake_released (pinb (Suc (Suc (reads s)))) \<or> pin_disabled (pinb (Suc (Suc (Suc (reads s)))))
       else pin_disabled (pinb (Suc (Suc (reads s))))))"
  by (auto simp add: main_decide_def restart_condition_def split_beta Let_def brake_changed)

lemma main_decide_reads:
  "reads (d_state (main_decide pinb (c, s))) =
     (if isManualStarted c \<and> \<not> pin_started (pinb (reads s)) then
        (if pin_brake_released (lastInput c) \<noteq> pin_brake_released (pinb (Suc (reads s)))
         then (if pin_brake_released (pinb (Suc (Suc (reads s)))) then Suc (Suc (Suc (reads s))) else Suc (Suc (Suc (Suc (reads s)))))
         else Suc (Suc (Suc (reads s))))
      else Suc (Suc (reads s)))"
  by (auto simp add: main_decide_def restart_condition_def split_beta Let_def brake_changed)

lemma main_before_report_flag:
  "isManualStarted (fst (main_before_report pinb cs)) =
     (d_flag (main_decide pinb cs) \<and>
      (d_fire (main_decide pinb cs) \<longrightarrow>
         pin_started (pinb (reads (cranking pinb (d_state (main_decide pinb cs)))))))"
  by (auto simp add: main_before_report_def main_crank_def split_beta Let_def)

lemma main_iteration_flag:
  "isManualStarted (fst (main_iteration pinb cs)) =
     (d_flag (main_decide pinb cs) \<and>
      (d_fire (main_decide pinb cs) \<longrightarrow>
         pin_started (pinb (reads (cranking pinb (d_state (main_decide pinb cs)))))))"
  by (simp add: main_iteration_def split_beta main_before_report_flag)

lemma d_fire_flag:
  "d_fire (main_decide pinb cs) \<Longrightarrow> isManualStarted (fst cs) \<and> \<not> d_started (main_decide pinb cs)"
  by (cases cs) (simp add: main_decide_fire)

lemma flag_stays_off:
  assumes "\<not> isManualStarted (fst cs)"
    and "\<forall>j<k. \<not> d_started (main_decide pinb (main_loop pinb j cs))"
  shows "\<not> isManualStarted (fst (main_loop pinb k cs))"
  using assms(2)
proof (induction k)
  case 0
  show ?case using assms(1) by simp
next
  case (Suc k)
  then have off: "\<not> isManualStarted (fst (main_loop pinb k cs))" by simp
  have "\<not> d_started (main_decide pinb (main_loop pinb k cs))" using Suc.prems by simp
  then have "\<not> d_flag (main_decide pinb (main_loop pinb k cs))"
    using off by (cases "main_loop pinb k cs") simp
  then show ?case by (simp add: main_iteration_flag)
qed

subsection \<open>The counters of the loop of cranking\<close>

text \<open>
  From a multiple of 100 the counter \<open>cranking_time\<close> runs over multiples of 100 up
  to 4000, and \<open>start_time\<close> is 0 or lies between 600 and \<open>cranking_time\<close>: both fit
  the 16 bits of the \<open>int\<close> of the AVR.
\<close>

lemma cranking_loop_range:
  assumes "ct mod 100 = 0" and "0 \<le> ct" and "ct \<le> 4000"
    and "st = 0 \<or> (600 \<le> st \<and> st \<le> ct)"
  shows "(case cranking_loop pinb st ct s of (broke, t, s') \<Rightarrow>
            ct \<le> t \<and> t \<le> 4000 \<and> t mod 100 = 0 \<and> (\<not> broke \<longrightarrow> t = 4000) \<and> (broke \<longrightarrow> 1100 \<le> t))"
  using assms
proof (induction pinb st ct s rule: cranking_loop.induct)
  case (1 pinb st ct s)
  have ct: "ct < 4000 \<Longrightarrow> ct + 100 \<le> 4000"
    using "1.prems"(1) by presburger
  have ct6: "\<not> ct + 100 \<le> 500 \<Longrightarrow> 600 \<le> ct + 100"
    using "1.prems"(1) by presburger
  have m: "(ct + 100) mod 100 = 0"
    using "1.prems"(1) by presburger
  show ?case
  proof (cases "ct < 4000")
    case False
    then show ?thesis
      using "1.prems" by (subst cranking_loop.simps) (simp add: timing_defs)
  next
    case True
    note lt = this
    show ?thesis
    proof (cases "ct + 100 \<le> 500")
      case True
      then show ?thesis
        using "1.IH"(1) "1.prems" lt ct m
        by (subst cranking_loop.simps) (simp add: timing_defs split_beta)
    next
      case False
      note late = this
      show ?thesis
      proof (cases "pin_started (pinb (reads s))")
        case False
        then show ?thesis
          using "1.IH"(2) "1.prems" lt late ct m
          by (subst cranking_loop.simps) (simp add: timing_defs split_beta)
      next
        case True
        note run = this
        let ?st = "if st = 0 then ct + POLLING_INTERVAL else st"
        show ?thesis
        proof (cases "START_THRESHOLD_TIME \<le> ct + POLLING_INTERVAL - ?st")
          case True
          then show ?thesis
            using "1.prems" lt late run ct ct6 m
            by (subst cranking_loop.simps) (auto simp add: timing_defs split: if_splits)
        next
          case False
          have "case cranking_loop pinb ?st (ct + POLLING_INTERVAL)
                       (snd (isStarted pinb (delay_ms POLLING_INTERVAL s))) of
                  (broke, t, s') \<Rightarrow>
                    ct + POLLING_INTERVAL \<le> t \<and> t \<le> 4000 \<and> t mod 100 = 0 \<and>
                    (\<not> broke \<longrightarrow> t = 4000) \<and> (broke \<longrightarrow> 1100 \<le> t)"
            by (rule "1.IH"(3))
               (use "1.prems" lt late run False ct ct6 m in \<open>auto simp add: timing_defs\<close>)
          then show ?thesis
            using lt late run False
            by (subst cranking_loop.simps) (simp add: timing_defs split_beta)
        qed
      qed
    qed
  qed
qed

lemma cranking_loop_wait:
  "ct + 100 \<le> 500 \<Longrightarrow>
   cranking_loop pinb st ct s = cranking_loop pinb 0 (ct + 100) (delay_ms 100 s)"
  by (subst cranking_loop.simps) (simp add: timing_defs)

lemma cranking_loop_delay:
  "cranking_loop pinb 0 0 s = cranking_loop pinb 0 500 (s\<lparr>clock := clock s + 500\<rparr>)"
proof -
  have "delay_ms 100 (delay_ms 100 (delay_ms 100 (delay_ms 100 (delay_ms 100 s)))) =
          s\<lparr>clock := clock s + 500\<rparr>"
    by (simp add: delay_ms_def)
  then show ?thesis
    by (simp add: cranking_loop_wait [of 0] cranking_loop_wait [of 100]
          cranking_loop_wait [of 200] cranking_loop_wait [of 300] cranking_loop_wait [of 400])
qed

lemma cranking_loop_stopped:
  "n \<le> 35 \<Longrightarrow> (\<forall>i<n. \<not> pin_started (pinb (reads s + i))) \<Longrightarrow>
   cranking_loop pinb st (4000 - 100 * int n) s =
     (False, 4000, s\<lparr>reads := reads s + n, clock := clock s + 100 * int n\<rparr>)"
proof (induction n arbitrary: st s)
  case 0
  show ?case by (subst cranking_loop.simps) (simp add: timing_defs)
next
  case (Suc n)
  let ?s = "snd (isStarted pinb (delay_ms 100 s))"
  have now: "\<not> pin_started (pinb (reads s))"
    using Suc.prems(2) by force
  have later: "\<forall>i<n. \<not> pin_started (pinb (reads ?s + i))"
    using Suc.prems(2) by force
  have "cranking_loop pinb 0 (4000 - 100 * int n) ?s =
          (False, 4000, ?s\<lparr>reads := reads ?s + n, clock := clock ?s + 100 * int n\<rparr>)"
    using Suc.prems(1) later by (intro Suc.IH) simp_all
  then show ?case
    using Suc.prems(1) now
    by (subst cranking_loop.simps) (simp add: timing_defs delay_ms_def algebra_simps)
qed

lemma cranking_loop_confirm:
  assumes "\<forall>i<6. pin_started (pinb (reads s + i))"
  shows "cranking_loop pinb 0 500 s =
           (True, 1100, s\<lparr>reads := reads s + 6, clock := clock s + 600\<rparr>)"
proof -
  have run: "pin_started (pinb (reads s + i))" if "i < 6" for i
    using assms that by simp
  have "pin_started (pinb (reads s))" "pin_started (pinb (Suc (reads s)))"
    "pin_started (pinb (Suc (Suc (reads s))))"
    "pin_started (pinb (Suc (Suc (Suc (reads s)))))"
    "pin_started (pinb (Suc (Suc (Suc (Suc (reads s))))))"
    "pin_started (pinb (Suc (Suc (Suc (Suc (Suc (reads s)))))))"
    using run [of 0] run [of 1] run [of 2] run [of 3] run [of 4] run [of 5]
    by (simp_all add: numeral_eq_Suc)
  then show ?thesis
    by (simp add: cranking_loop.simps [of _ _ 500] cranking_loop.simps [of _ _ 600]
          cranking_loop.simps [of _ _ 700] cranking_loop.simps [of _ _ 800]
          cranking_loop.simps [of _ _ 900] cranking_loop.simps [of _ _ 1000]
          timing_defs delay_ms_def)
qed

lemma cranking_exit_range:
  "case cranking_exit pinb s of (broke, t, s') \<Rightarrow>
     0 \<le> t \<and> t \<le> 4000 \<and> t mod 100 = 0 \<and> (\<not> broke \<longrightarrow> t = 4000) \<and> (broke \<longrightarrow> 1100 \<le> t)"
  unfolding cranking_exit_def by (rule cranking_loop_range) simp_all

lemma cranking_clock:
  "clock (cranking pinb s) = clock s + fst (snd (cranking_exit pinb s))"
  using cranking_loop_clock [of pinb 0 0 "cranking_entry s"]
  by (simp add: cranking_def Let_def cranking_exit_def cranking_entry_def)

lemma pins_stall_override: "pin_disabled (pins_stall k)"
  by (simp add: pins_stall_def pin_disabled_def IN_DISABLE_def BV_def PINB0_def)

subsection \<open>Dependence on the reads\<close>

text \<open>
  Every function depends on the pins only through the reads it makes: the reads from the
  counter of the state in which it is called up to the counter of the state it returns.
\<close>

lemma same_reads_mono:
  "same_reads a b lo hi \<Longrightarrow> lo \<le> lo' \<Longrightarrow> hi' \<le> hi \<Longrightarrow> same_reads a b lo' hi'"
  by (simp add: same_reads_def)

lemma same_reads_at:
  "same_reads a b lo hi \<Longrightarrow> lo \<le> i \<Longrightarrow> i < hi \<Longrightarrow> a i = b i"
  by (simp add: same_reads_def)

lemma transferShiftPosition_reads:
  "reads (transferShiftPosition a s) =
     (if pin_disabled (a (reads s)) then Suc (reads s) else Suc (Suc (reads s)))"
  by (simp add: transferShiftPosition_eq)

lemma transferShiftPosition_same:
  assumes "same_reads a b (reads s) (reads (transferShiftPosition a s))"
  shows "transferShiftPosition a s = transferShiftPosition b s"
proof -
  have r0: "a (reads s) = b (reads s)"
    by (rule same_reads_at [OF assms]) (simp_all add: transferShiftPosition_reads)
  show ?thesis
  proof (cases "pin_disabled (a (reads s))")
    case True
    then show ?thesis using r0 by (simp add: transferShiftPosition_eq)
  next
    case False
    have "a (Suc (reads s)) = b (Suc (reads s))"
      by (rule same_reads_at [OF assms]) (simp_all add: transferShiftPosition_reads False)
    then show ?thesis using r0 by (simp add: transferShiftPosition_eq)
  qed
qed

lemma cranking_loop_same:
  "same_reads a b (reads s) (reads (snd (snd (cranking_loop a st ct s)))) \<Longrightarrow>
   cranking_loop a st ct s = cranking_loop b st ct s"
proof (induction a st ct s rule: cranking_loop.induct)
  case (1 a st ct s)
  show ?case
  proof (cases "ct < CRANKING_MAX_TIME")
    case False
    then show ?thesis by (simp add: cranking_loop.simps [of _ st ct s])
  next
    case True
    note lt = this
    show ?thesis
    proof (cases "START_CHECK_DELAY_TIME \<ge> ct + POLLING_INTERVAL")
      case True
      let ?s = "delay_ms POLLING_INTERVAL s"
      have unf: "cranking_loop p st ct s = cranking_loop p 0 (ct + POLLING_INTERVAL) ?s" for p
        using lt True by (simp add: cranking_loop.simps [of p st ct s])
      have "same_reads a b (reads ?s) (reads (snd (snd (cranking_loop a 0 (ct + POLLING_INTERVAL) ?s))))"
        using "1.prems" by (simp add: unf)
      then have "cranking_loop a 0 (ct + POLLING_INTERVAL) ?s =
                 cranking_loop b 0 (ct + POLLING_INTERVAL) ?s"
        using lt True by (rule "1.IH"(1) [rotated -1])
      then show ?thesis by (simp add: unf)
    next
      case False
      note late = this
      let ?s = "snd (isStarted a (delay_ms POLLING_INTERVAL s))"
      have sb: "snd (isStarted b (delay_ms POLLING_INTERVAL s)) = ?s"
        by simp
      have unf: "cranking_loop p st ct s =
                   (if \<not> pin_started (p (reads s)) then
                      cranking_loop p 0 (ct + POLLING_INTERVAL) ?s
                    else if START_THRESHOLD_TIME \<le> ct + POLLING_INTERVAL
                              - (if st = 0 then ct + POLLING_INTERVAL else st) then
                      (True, ct + POLLING_INTERVAL, ?s)
                    else cranking_loop p (if st = 0 then ct + POLLING_INTERVAL else st)
                           (ct + POLLING_INTERVAL) ?s)" for p
        using lt late by (simp add: cranking_loop.simps [of p st ct s])
      have "reads ?s \<le> reads (snd (snd (cranking_loop a st ct s)))"
        using cranking_loop_reads [of ?s a] by (simp add: unf)
      then have r0: "a (reads s) = b (reads s)"
        by (intro same_reads_at [OF "1.prems"]) simp_all
      show ?thesis
      proof (cases "pin_started (a (reads s))")
        case False
        have "same_reads a b (reads ?s)
                (reads (snd (snd (cranking_loop a 0 (ct + POLLING_INTERVAL) ?s))))"
          using "1.prems" False by (simp add: unf same_reads_def)
        then have "cranking_loop a 0 (ct + POLLING_INTERVAL) ?s =
                   cranking_loop b 0 (ct + POLLING_INTERVAL) ?s"
          using lt late False by (intro "1.IH"(2)) simp_all
        then show ?thesis
          using False r0 by (simp add: unf)
      next
        case True
        note run = this
        let ?st = "if st = 0 then ct + POLLING_INTERVAL else st"
        show ?thesis
        proof (cases "START_THRESHOLD_TIME \<le> ct + POLLING_INTERVAL - ?st")
          case True
          then show ?thesis
            using run r0 by (simp add: unf)
        next
          case False
          have "same_reads a b (reads ?s)
                  (reads (snd (snd (cranking_loop a ?st (ct + POLLING_INTERVAL) ?s))))"
            using "1.prems" run False by (simp add: unf same_reads_def)
          then have "cranking_loop a ?st (ct + POLLING_INTERVAL) ?s =
                     cranking_loop b ?st (ct + POLLING_INTERVAL) ?s"
            using lt late run False by (intro "1.IH"(3)) simp_all
          then show ?thesis
            using run False r0 by (simp add: unf)
        qed
      qed
    qed
  qed
qed

lemma cranking_reads:
  "reads (cranking a s) = reads (snd (snd (cranking_exit a s)))"
  "reads s \<le> reads (cranking a s)"
  using cranking_loop_reads [of "cranking_entry s" a 0 0]
  by (simp_all add: cranking_def Let_def cranking_exit_def cranking_entry_def)

lemma cranking_same:
  assumes "same_reads a b (reads s) (reads (cranking a s))"
  shows "cranking a s = cranking b s"
proof -
  have "same_reads a b (reads (cranking_entry s))
          (reads (snd (snd (cranking_loop a 0 0 (cranking_entry s)))))"
    using assms by (simp add: cranking_reads(1) cranking_exit_def cranking_entry_def)
  then have "cranking_loop a 0 0 (cranking_entry s) = cranking_loop b 0 0 (cranking_entry s)"
    by (rule cranking_loop_same)
  then show ?thesis
    by (simp add: cranking_def cranking_exit_def)
qed

lemma main_crank_reads:
  "reads (snd (main_crank a flag s)) = Suc (reads (cranking a s))"
  by (simp add: main_crank_def split_beta Let_def)

lemma main_crank_same:
  assumes "same_reads a b (reads s) (reads (snd (main_crank a flag s)))"
  shows "main_crank a flag s = main_crank b flag s"
proof -
  have "same_reads a b (reads s) (reads (cranking a s))"
    using assms by (rule same_reads_mono) (simp_all add: main_crank_reads)
  then have c: "cranking a s = cranking b s"
    by (rule cranking_same)
  have "a (reads (cranking a s)) = b (reads (cranking a s))"
    by (rule same_reads_at [OF assms]) (simp_all add: main_crank_reads cranking_reads(2))
  then show ?thesis
    using c by (simp add: main_crank_def split_beta Let_def)
qed

lemma main_decide_state:
  "d_state (main_decide a (c, s)) =
     s\<lparr>clock := clock s + POLLING_INTERVAL, reads := reads (d_state (main_decide a (c, s)))\<rparr>"
  by (simp add: main_decide_def restart_condition_def split_beta Let_def delay_ms_def)

lemma main_decide_same:
  assumes "same_reads a b (reads s) (reads (d_state (main_decide a (c, s))))"
  shows "main_decide a (c, s) = main_decide b (c, s)"
proof -
  have r0: "a (reads s) = b (reads s)"
    by (rule same_reads_at [OF assms]) (simp_all add: main_decide_reads)
  have r1: "a (Suc (reads s)) = b (Suc (reads s))"
    by (rule same_reads_at [OF assms]) (simp_all add: main_decide_reads)
  have r2: "a (Suc (Suc (reads s))) = b (Suc (Suc (reads s)))"
    if "isManualStarted c" "\<not> pin_started (a (reads s))"
    by (rule same_reads_at [OF assms]) (simp_all add: main_decide_reads that)
  have r3: "a (Suc (Suc (Suc (reads s)))) = b (Suc (Suc (Suc (reads s))))"
    if "isManualStarted c" "\<not> pin_started (a (reads s))"
      "pin_brake_released (lastInput c) \<noteq> pin_brake_released (a (Suc (reads s)))"
      "\<not> pin_brake_released (a (Suc (Suc (reads s))))"
    by (rule same_reads_at [OF assms]) (simp_all add: main_decide_reads that)
  have "d_fire (main_decide a (c, s)) = d_fire (main_decide b (c, s)) \<and>
        reads (d_state (main_decide a (c, s))) = reads (d_state (main_decide b (c, s)))"
  proof (cases "isManualStarted c \<and> \<not> pin_started (a (reads s))")
    case False
    then show ?thesis
      using r0 by (auto simp add: main_decide_fire main_decide_reads)
  next
    case True
    note armed = this
    then have e2: "a (Suc (Suc (reads s))) = b (Suc (Suc (reads s)))"
      using r2 by simp
    show ?thesis
    proof (cases "pin_brake_released (lastInput c) \<noteq> pin_brake_released (a (Suc (reads s))) \<and>
                  \<not> pin_brake_released (a (Suc (Suc (reads s))))")
      case False
      then show ?thesis
        using r0 r1 e2 by (auto simp add: main_decide_fire main_decide_reads)
    next
      case True
      then have "a (Suc (Suc (Suc (reads s)))) = b (Suc (Suc (Suc (reads s))))"
        using r3 armed by simp
      then show ?thesis
        using r0 r1 e2 by (simp add: main_decide_fire main_decide_reads)
    qed
  qed
  then have fire: "d_fire (main_decide a (c, s)) = d_fire (main_decide b (c, s))"
    and rd: "reads (d_state (main_decide a (c, s))) = reads (d_state (main_decide b (c, s)))"
    by simp_all
  have "d_state (main_decide a (c, s)) = d_state (main_decide b (c, s))"
    by (subst (1 2) main_decide_state) (simp add: rd)
  then show ?thesis
    using fire r0 r1 by (intro decision.equality) simp_all
qed

lemma main_before_report_reads:
  "reads (snd (main_before_report a (c, s))) =
     (if d_fire (main_decide a (c, s))
      then Suc (reads (cranking a (d_state (main_decide a (c, s)))))
      else reads (d_state (main_decide a (c, s))))"
  by (simp add: main_before_report_def split_beta Let_def main_crank_reads)

lemma main_decide_reads_le:
  "reads s \<le> reads (d_state (main_decide a (c, s)))"
  by (simp add: main_decide_reads)

lemma main_before_report_reads_le:
  "reads (d_state (main_decide a (c, s))) \<le> reads (snd (main_before_report a (c, s)))"
  using cranking_reads(2) [of "d_state (main_decide a (c, s))" a]
  by (simp add: main_before_report_reads)

lemma main_before_report_later:
  "Suc (Suc (reads (snd cs))) \<le> reads (snd (main_before_report pinb cs))"
proof (cases cs)
  case (Pair c s)
  have "Suc (Suc (reads s)) \<le> reads (d_state (main_decide pinb (c, s)))"
    by (simp add: main_decide_reads)
  then show ?thesis
    using main_before_report_reads_le [of pinb c s] by (simp add: Pair)
qed

lemma main_before_report_same:
  assumes "same_reads a b (reads s) (reads (snd (main_before_report a (c, s))))"
  shows "main_before_report a (c, s) = main_before_report b (c, s)"
proof -
  have "same_reads a b (reads s) (reads (d_state (main_decide a (c, s))))"
    using assms by (rule same_reads_mono) (simp_all add: main_before_report_reads_le)
  then have d: "main_decide a (c, s) = main_decide b (c, s)"
    by (rule main_decide_same)
  show ?thesis
  proof (cases "d_fire (main_decide a (c, s))")
    case False
    then show ?thesis
      using d by (simp add: main_before_report_def Let_def)
  next
    case True
    let ?d = "main_decide a (c, s)"
    have "same_reads a b (reads (d_state ?d)) (reads (snd (main_crank a (d_flag ?d) (d_state ?d))))"
      using assms True
      by (rule_tac same_reads_mono [of a b "reads s" "reads (snd (main_before_report a (c, s)))"])
         (simp_all add: main_before_report_reads main_crank_reads main_decide_reads_le)
    then have "main_crank a (d_flag ?d) (d_state ?d) = main_crank b (d_flag ?d) (d_state ?d)"
      by (rule main_crank_same)
    then show ?thesis
      using d True by (simp add: main_before_report_def Let_def)
  qed
qed

lemma main_iteration_reads_le:
  "reads (snd (main_before_report a (c, s))) \<le> reads (snd (main_iteration a (c, s)))"
  by (simp add: main_iteration_def split_beta transferShiftPosition_reads)

lemma main_iteration_same:
  assumes "same_reads a b (reads s) (reads (snd (main_iteration a (c, s))))"
  shows "main_iteration a (c, s) = main_iteration b (c, s)"
proof -
  let ?m = "main_before_report a (c, s)"
  have "same_reads a b (reads s) (reads (snd ?m))"
    using assms by (rule same_reads_mono) (simp_all add: main_iteration_reads_le)
  then have m: "main_before_report a (c, s) = main_before_report b (c, s)"
    by (rule main_before_report_same)
  have "reads s \<le> reads (snd ?m)"
    using main_decide_reads_le [of s a c] main_before_report_reads_le [of a c s] by simp
  then have "same_reads a b (reads (snd ?m)) (reads (transferShiftPosition a (snd ?m)))"
    using assms
    by (rule_tac same_reads_mono [of a b "reads s" "reads (snd (main_iteration a (c, s)))"])
       (simp_all add: main_iteration_def split_beta)
  then have "transferShiftPosition a (snd ?m) = transferShiftPosition b (snd ?m)"
    by (rule transferShiftPosition_same)
  then show ?thesis
    using m by (simp add: main_iteration_def split_beta)
qed

section \<open>The relay\<close>

text \<open>
  C1. The relay output \<open>OUT_BRAKE\<close> is off wherever the controller is outside a call of
  \<open>cranking\<close>: after \<open>init\<close>, at the start of every iteration of the loop of
  \<open>main\<close>, at the point of every iteration where \<open>cranking\<close> is called or skipped
  (immediately before the call), when \<open>cranking\<close> returns, from whatever state and by
  whichever exit of its loop, and before the call of \<open>transferShiftPosition\<close> that ends
  the iteration.
\<close>

theorem relay_released_outside_cranking:
  "\<not> relay_on (init pinb s0) \<and>
   \<not> relay_on (snd (main_loop pinb n (main_start pinb s0))) \<and>
   \<not> relay_on (d_state (main_decide pinb (main_loop pinb n (main_start pinb s0)))) \<and>
   \<not> relay_on (cranking pinb s) \<and>
   \<not> relay_on (snd (main_before_report pinb (main_loop pinb n (main_start pinb s0))))"
proof -
  obtain c1 s1 where cs: "main_loop pinb n (main_start pinb s0) = (c1, s1)"
    by (cases "main_loop pinb n (main_start pinb s0)")
  have off: "\<not> relay_on s1"
    using main_loop_relay [of "main_start pinb s0" pinb n] by (simp add: cs)
  have "\<not> relay_on (d_state (main_decide pinb (c1, s1)))"
    using off by (simp add: relay_on_def)
  moreover have "\<not> relay_on (snd (main_before_report pinb (c1, s1)))"
    using off by (rule main_before_report_relay)
  ultimately show ?thesis
    using off by (simp add: cs)
qed

text \<open>
  In the second iteration of the run \<open>pins_stall\<close> the call is made and its loop runs
  into the time limit; in the third iteration of \<open>pins_restart\<close> the loop is left by
  \<open>break\<close>. The relay is on inside both calls.
\<close>

theorem relay_released_outside_cranking_witness:
  "d_fire (main_decide pins_stall (main_loop pins_stall 1 (main_start pins_stall power_on))) \<and>
   \<not> relay_on (d_state (main_decide pins_stall
                 (main_loop pins_stall 1 (main_start pins_stall power_on)))) \<and>
   relay_on (snd (snd (cranking_exit pins_stall (d_state (main_decide pins_stall
                 (main_loop pins_stall 1 (main_start pins_stall power_on))))))) \<and>
   \<not> relay_on (cranking pins_stall (d_state (main_decide pins_stall
                 (main_loop pins_stall 1 (main_start pins_stall power_on)))))"
  using relay_released_outside_cranking [of pins_stall power_on 1
          "d_state (main_decide pins_stall (main_loop pins_stall 1 (main_start pins_stall power_on)))"]
  by code_simp

section \<open>The shift position\<close>

text \<open>
  C2, as the code has it. \<open>transferShiftPosition\<close> takes no sample from its caller:
  it reads the port itself, the override by its first read and neutral by its second, and
  after it has run the output reports neutral exactly when one of the two is read on. The
  function ends every iteration of the loop of \<open>main\<close>, whether or not \<open>cranking\<close>
  was called in it, so this holds after every iteration, with the two reads that follow
  all other reads of the iteration: they come after the snapshot \<open>input\<close>, the second
  read of the iteration, and after the whole call of \<open>cranking\<close>. Where the port still
  shows the snapshot at these two reads, the report is that of the snapshot.
\<close>

theorem shift_position_report:
  "reports_neutral (transferShiftPosition pinb s) =
     (pin_disabled (pinb (reads s)) \<or> pin_neutral (pinb (Suc (reads s)))) \<and>
   snd (main_iteration pinb cs) = transferShiftPosition pinb (snd (main_before_report pinb cs)) \<and>
   Suc (Suc (reads (snd cs))) \<le> reads (snd (main_before_report pinb cs)) \<and>
   d_input (main_decide pinb cs) = pinb (Suc (reads (snd cs))) \<and>
   reports_neutral (snd (main_iteration pinb cs)) =
     (pin_disabled (pinb (reads (snd (main_before_report pinb cs)))) \<or>
      pin_neutral (pinb (Suc (reads (snd (main_before_report pinb cs)))))) \<and>
   (pinb (reads (snd (main_before_report pinb cs))) = d_input (main_decide pinb cs) \<and>
    pinb (Suc (reads (snd (main_before_report pinb cs)))) = d_input (main_decide pinb cs) \<longrightarrow>
    reports_neutral (snd (main_iteration pinb cs)) =
      (pin_disabled (d_input (main_decide pinb cs)) \<or> pin_neutral (d_input (main_decide pinb cs))))"
  using main_before_report_later [of cs pinb]
  by (cases cs) (simp add: main_iteration_def split_beta transferShiftPosition_neutral)

text \<open>
  The second iteration of \<open>pins_stall\<close> calls \<open>cranking\<close>; the port still shows
  the snapshot of the iteration (override on, engine stopped) when the position is
  reported, and the report is neutral.
\<close>

theorem shift_position_report_witness:
  "d_fire (main_decide pins_stall (main_loop pins_stall 1 (main_start pins_stall power_on))) \<and>
   pins_stall (reads (snd (main_before_report pins_stall
       (main_loop pins_stall 1 (main_start pins_stall power_on))))) =
     d_input (main_decide pins_stall (main_loop pins_stall 1 (main_start pins_stall power_on))) \<and>
   pins_stall (Suc (reads (snd (main_before_report pins_stall
       (main_loop pins_stall 1 (main_start pins_stall power_on)))))) =
     d_input (main_decide pins_stall (main_loop pins_stall 1 (main_start pins_stall power_on))) \<and>
   pin_disabled (d_input (main_decide pins_stall
       (main_loop pins_stall 1 (main_start pins_stall power_on)))) \<and>
   reports_neutral (snd (main_iteration pins_stall
       (main_loop pins_stall 1 (main_start pins_stall power_on))))"
  using shift_position_report [of pins_stall power_on
          "main_loop pins_stall 1 (main_start pins_stall power_on)"]
  by code_simp

text \<open>
  C2 as the specification states it fails. In the third iteration of \<open>pins_shift\<close> the
  port shows 36 (no override, not neutral) at all three reads of the decision, the
  snapshot among them; the lever is put in neutral while \<open>cranking\<close> runs, and the
  iteration ends reporting neutral.
\<close>

theorem shift_position_report_counterexample:
  "pins_shift 12 = 36 \<and> pins_shift 13 = 36 \<and> pins_shift 14 = 36 \<and>
   reads (snd (main_loop pins_shift 2 (main_start pins_shift power_on))) = 12 \<and>
   reads (d_state (main_decide pins_shift
      (main_loop pins_shift 2 (main_start pins_shift power_on)))) = 15 \<and>
   d_input (main_decide pins_shift (main_loop pins_shift 2 (main_start pins_shift power_on))) = 36 \<and>
   \<not> pin_disabled 36 \<and> \<not> pin_neutral 36 \<and>
   reports_neutral (snd (main_iteration pins_shift
      (main_loop pins_shift 2 (main_start pins_shift power_on))))"
  by code_simp

section \<open>The decision to restart\<close>

lemma restart_condition_stable:
  "(\<forall>i. reads s \<le> i \<and> i < reads (d_state (main_decide pinb (c, s))) \<longrightarrow> pinb i = p) \<Longrightarrow>
   d_fire (main_decide pinb (c, s)) =
     ((isManualStarted c \<or> pin_started p) \<and> \<not> pin_started p \<and>
      ((\<not> pin_brake_released (lastInput c) \<and> pin_brake_released p) \<or> pin_disabled p))"
proof -
  assume a: "\<forall>i. reads s \<le> i \<and> i < reads (d_state (main_decide pinb (c, s))) \<longrightarrow> pinb i = p"
  have r: "Suc (Suc (reads s)) \<le> reads (d_state (main_decide pinb (c, s)))"
    by (simp add: main_decide_reads)
  have p0: "pinb (reads s) = p" and p1: "pinb (Suc (reads s)) = p"
    using a r by simp_all
  show ?thesis
  proof (cases "isManualStarted c \<and> \<not> pin_started p")
    case False
    then show ?thesis by (auto simp add: main_decide_fire p0)
  next
    case True
    then have r3: "Suc (Suc (Suc (reads s))) \<le> reads (d_state (main_decide pinb (c, s)))"
      by (simp add: main_decide_reads p0)
    then have p2: "pinb (Suc (Suc (reads s))) = p" using a by simp
    show ?thesis
    proof (cases "pin_brake_released (lastInput c) \<noteq> pin_brake_released p \<and> \<not> pin_brake_released p")
      case False
      then show ?thesis using True by (auto simp add: main_decide_fire p0 p1 p2)
    next
      case True2: True
      then have "Suc (Suc (Suc (Suc (reads s)))) \<le> reads (d_state (main_decide pinb (c, s)))"
        using True by (simp add: main_decide_reads p0 p1 p2)
      then have "pinb (Suc (Suc (Suc (reads s)))) = p" using a by simp
      then show ?thesis using True True2 by (auto simp add: main_decide_fire p0 p1 p2)
    qed
  qed
qed

text \<open>
  C3, as the code has it. The condition under which an iteration calls \<open>cranking\<close> is
  made of several reads of the port. It holds exactly when the flag, after its update, is
  set, the engine is not running at the first read of the iteration, and: either the brake
  bit of the snapshot \<open>input\<close> (the second read) differs from the one of the stored
  \<open>lastInput\<close> and the brake is released at the third read, or the override is on at
  the read that follows (the fourth when the brake bits differ, the third when they do
  not). \<open>main_before_report\<close> calls \<open>cranking\<close> exactly under this condition. In an
  iteration whose reads up to the end of the condition all return one value \<open>p\<close>, the
  condition is: flag set, engine not running in \<open>p\<close>, and brake depressed in
  \<open>lastInput\<close> and released in \<open>p\<close>, or override on in \<open>p\<close>.
\<close>

theorem restart_trigger:
  "d_fire (main_decide pinb (c, s)) =
     ((isManualStarted c \<or> pin_started (pinb (reads s))) \<and> \<not> pin_started (pinb (reads s)) \<and>
      (if pin_brake_released (lastInput c) \<noteq> pin_brake_released (pinb (Suc (reads s)))
       then pin_brake_released (pinb (Suc (Suc (reads s)))) \<or>
            pin_disabled (pinb (Suc (Suc (Suc (reads s)))))
       else pin_disabled (pinb (Suc (Suc (reads s)))))) \<and>
   snd (main_before_report pinb (c, s)) =
     (if d_fire (main_decide pinb (c, s))
      then snd (isStarted pinb (cranking pinb (d_state (main_decide pinb (c, s)))))
      else d_state (main_decide pinb (c, s))) \<and>
   ((\<forall>i. reads s \<le> i \<and> i < reads (d_state (main_decide pinb (c, s))) \<longrightarrow> pinb i = p) \<longrightarrow>
    d_fire (main_decide pinb (c, s)) =
      ((isManualStarted c \<or> pin_started p) \<and> \<not> pin_started p \<and>
       ((\<not> pin_brake_released (lastInput c) \<and> pin_brake_released p) \<or> pin_disabled p)))"
proof -
  have "d_fire (main_decide pinb (c, s)) =
     ((isManualStarted c \<or> pin_started (pinb (reads s))) \<and> \<not> pin_started (pinb (reads s)) \<and>
      (if pin_brake_released (lastInput c) \<noteq> pin_brake_released (pinb (Suc (reads s)))
       then pin_brake_released (pinb (Suc (Suc (reads s)))) \<or>
            pin_disabled (pinb (Suc (Suc (Suc (reads s)))))
       else pin_disabled (pinb (Suc (Suc (reads s))))))"
    by (auto simp add: main_decide_fire)
  moreover have "snd (main_before_report pinb (c, s)) =
     (if d_fire (main_decide pinb (c, s))
      then snd (isStarted pinb (cranking pinb (d_state (main_decide pinb (c, s)))))
      else d_state (main_decide pinb (c, s)))"
    by (simp add: main_before_report_def main_crank_def split_beta Let_def del: isStarted_simps)
  ultimately show ?thesis
    using restart_condition_stable [of s pinb c p] by blast
qed

text \<open>
  The third iteration of \<open>pins_restart\<close>: the port shows 36 (engine stopped, brake
  released) at its three reads, \<open>lastInput\<close> is 32 (brake depressed), the flag is set.
\<close>

theorem restart_trigger_witness:
  "main_loop pins_restart 2 (main_start pins_restart power_on) =
     (\<lparr>isManualStarted = True, lastInput = 32\<rparr>,
      \<lparr>PORTB = 23, DDRB = 24, ACSR = 128, reads = 12, clock = 200\<rparr>) \<and>
   \<not> pin_started 36 \<and> \<not> pin_brake_released 32 \<and> pin_brake_released 36 \<and>
   d_fire (main_decide pins_restart
     (\<lparr>isManualStarted = True, lastInput = 32\<rparr>,
      \<lparr>PORTB = 23, DDRB = 24, ACSR = 128, reads = 12, clock = 200\<rparr>))"
proof -
  let ?c = "\<lparr>isManualStarted = True, lastInput = 32\<rparr>"
  let ?s = "\<lparr>PORTB = 23, DDRB = 24, ACSR = 128, reads = 12, clock = 200\<rparr>"
  have run: "main_loop pins_restart 2 (main_start pins_restart power_on) = (?c, ?s)"
    by code_simp
  have p: "\<not> pin_started 36 \<and> \<not> pin_brake_released 32 \<and> pin_brake_released 36"
    by code_simp
  have "reads (d_state (main_decide pins_restart (?c, ?s))) = 15"
    by code_simp
  then have "\<forall>i. reads ?s \<le> i \<and> i < reads (d_state (main_decide pins_restart (?c, ?s)))
               \<longrightarrow> pins_restart i = 36"
    by (simp add: pins_restart_def)
  with restart_trigger [of pins_restart ?c ?s 36]
  have "d_fire (main_decide pins_restart (?c, ?s)) =
      ((isManualStarted ?c \<or> pin_started 36) \<and> \<not> pin_started 36 \<and>
       ((\<not> pin_brake_released (lastInput ?c) \<and> pin_brake_released 36) \<or> pin_disabled 36))"
    by blast
  then have "d_fire (main_decide pins_restart (?c, ?s))"
    using p by simp
  then show ?thesis using run p by simp
qed

text \<open>
  C3 as the specification states it fails. At the second iteration of \<open>pins_bounce\<close>
  the flag is set, the stored \<open>lastInput\<close> has the brake released, and the override is
  off at the three reads of the condition (reads 7 to 9). The snapshot shows the brake
  depressed and the read after it shows it released: \<open>cranking\<close> is called, although
  the brake was not depressed in the stored sample.
\<close>

theorem restart_trigger_counterexample:
  "main_loop pins_bounce 1 (main_start pins_bounce power_on) =
     (\<lparr>isManualStarted = True, lastInput = 4\<rparr>,
      \<lparr>PORTB = 23, DDRB = 24, ACSR = 128, reads = 7, clock = 100\<rparr>) \<and>
   pin_brake_released 4 \<and>
   pins_bounce 7 = 36 \<and> pins_bounce 8 = 32 \<and> pins_bounce 9 = 36 \<and>
   \<not> pin_disabled 36 \<and> \<not> pin_disabled 32 \<and>
   reads (d_state (main_decide pins_bounce
     (\<lparr>isManualStarted = True, lastInput = 4\<rparr>,
      \<lparr>PORTB = 23, DDRB = 24, ACSR = 128, reads = 7, clock = 100\<rparr>))) = 10 \<and>
   d_fire (main_decide pins_bounce
     (\<lparr>isManualStarted = True, lastInput = 4\<rparr>,
      \<lparr>PORTB = 23, DDRB = 24, ACSR = 128, reads = 7, clock = 100\<rparr>))"
  by code_simp

section \<open>After a failed attempt\<close>

text \<open>
  C4. When \<open>cranking\<close> was called in an iteration and the engine is not running at the
  look that follows the call, the flag is cleared. And from any state in which the flag is
  clear, no iteration calls \<open>cranking\<close> as long as no earlier iteration (counted from
  that state) has seen the engine running at its first look; the brake plays no part.
\<close>

theorem no_restart_after_failure:
  "(d_fire (main_decide pinb cs) \<and>
    \<not> pin_started (pinb (reads (cranking pinb (d_state (main_decide pinb cs))))) \<longrightarrow>
      \<not> isManualStarted (fst (main_iteration pinb cs))) \<and>
   (\<not> isManualStarted (fst cs') \<and>
    (\<forall>j<k. \<not> d_started (main_decide pinb (main_loop pinb j cs'))) \<longrightarrow>
      \<not> d_fire (main_decide pinb (main_loop pinb k cs')))"
  using flag_stays_off [of cs' k pinb] d_fire_flag [of pinb "main_loop pinb k cs'"]
  by (auto simp add: main_iteration_flag)

text \<open>
  In \<open>pins_stall\<close> the second iteration calls \<open>cranking\<close> and the engine does not
  start: the flag is clear after it, and the fifth iteration, like the third and the
  fourth, does not call \<open>cranking\<close>, although the override is on.
\<close>

theorem no_restart_after_failure_witness:
  "d_fire (main_decide pins_stall (main_loop pins_stall 1 (main_start pins_stall power_on))) \<and>
   \<not> isManualStarted (fst (main_loop pins_stall 2 (main_start pins_stall power_on))) \<and>
   pin_disabled (d_input (main_decide pins_stall
      (main_loop pins_stall 4 (main_start pins_stall power_on)))) \<and>
   \<not> d_fire (main_decide pins_stall (main_loop pins_stall 4 (main_start pins_stall power_on)))"
proof -
  let ?cs = "main_loop pins_stall 1 (main_start pins_stall power_on)"
  let ?cs' = "main_loop pins_stall 2 (main_start pins_stall power_on)"
  have step: "?cs' = main_iteration pins_stall ?cs"
    by (simp add: numeral_2_eq_2)
  have fire: "d_fire (main_decide pins_stall ?cs)"
    by code_simp
  have fail: "\<not> pin_started (pins_stall (reads (cranking pins_stall (d_state (main_decide pins_stall ?cs)))))"
    by code_simp
  have off: "\<not> isManualStarted (fst ?cs')"
    using no_restart_after_failure [of pins_stall ?cs] fire fail by (simp only: step) simp
  have s0: "\<not> d_started (main_decide pins_stall (main_loop pins_stall 0 ?cs'))"
    by code_simp
  have s1: "\<not> d_started (main_decide pins_stall (main_loop pins_stall 1 ?cs'))"
    by code_simp
  have quiet: "\<forall>j<2. \<not> d_started (main_decide pins_stall (main_loop pins_stall j ?cs'))"
  proof (intro allI impI)
    fix j :: nat
    assume "j < 2"
    then have "j = 0 \<or> j = 1" by auto
    then show "\<not> d_started (main_decide pins_stall (main_loop pins_stall j ?cs'))"
      using s0 s1 by auto
  qed
  have "\<not> d_fire (main_decide pins_stall (main_loop pins_stall 2 ?cs'))"
    using no_restart_after_failure [of pins_stall ?cs ?cs' 2] off quiet by blast
  moreover have "main_loop pins_stall 2 ?cs' = main_loop pins_stall 4 (main_start pins_stall power_on)"
    by (simp add: numeral_eq_Suc)
  moreover have "pin_disabled (d_input (main_decide pins_stall
      (main_loop pins_stall 4 (main_start pins_stall power_on))))"
    by code_simp
  ultimately show ?thesis using fire off by simp
qed

section \<open>The timing of cranking\<close>

text \<open>
  C6. The loop of \<open>cranking\<close> always ends: \<open>cranking_loop\<close> is a total function,
  its termination is proved with the measure \<open>CRANKING_MAX_TIME - cranking_time\<close>. When
  none of the 35 polls that look at the engine (those after the delay) sees it running, the
  loop is left through its condition with \<open>cranking_time = CRANKING_MAX_TIME\<close>, after 40
  delays of \<open>POLLING_INTERVAL\<close>, one in each iteration. In every case the time spent in
  the call is the final \<open>cranking_time\<close>, at most \<open>CRANKING_MAX_TIME\<close>, and the
  relay is off on return.
\<close>

theorem cranking_bounded:
  "((\<forall>i<35. \<not> pin_started (pinb (reads s + i))) \<longrightarrow>
      cranking_exit pinb s =
        (False, CRANKING_MAX_TIME,
         (cranking_entry s)\<lparr>reads := reads s + 35, clock := clock s + CRANKING_MAX_TIME\<rparr>)) \<and>
   clock (cranking pinb s) = clock s + fst (snd (cranking_exit pinb s)) \<and>
   fst (snd (cranking_exit pinb s)) \<le> CRANKING_MAX_TIME \<and>
   \<not> relay_on (cranking pinb s) \<and>
   CRANKING_MAX_TIME = 40 * POLLING_INTERVAL"
proof -
  have "cranking_exit pinb s =
          (False, 4000, (cranking_entry s)\<lparr>reads := reads s + 35, clock := clock s + 4000\<rparr>)"
    if quiet: "\<forall>i<35. \<not> pin_started (pinb (reads s + i))"
  proof -
    let ?s = "(cranking_entry s)\<lparr>clock := clock s + 500\<rparr>"
    have "cranking_loop pinb 0 (4000 - 100 * int 35) ?s =
            (False, 4000, ?s\<lparr>reads := reads ?s + 35, clock := clock ?s + 100 * int 35\<rparr>)"
      using quiet by (intro cranking_loop_stopped) (simp_all add: cranking_entry_def)
    then show ?thesis
      using cranking_loop_delay [of pinb "cranking_entry s"]
      by (simp add: cranking_exit_def cranking_entry_def)
  qed
  moreover have "fst (snd (cranking_exit pinb s)) \<le> 4000"
    using cranking_exit_range [of pinb s] by (simp add: split_beta)
  ultimately show ?thesis
    by (simp add: cranking_clock timing_defs)
qed

text \<open>
  With \<open>pins_stopped\<close> the call takes 4000 ms and makes 35 reads; with
  \<open>pins_running\<close> it takes 1100 ms.
\<close>

theorem cranking_bounded_witness:
  "cranking_exit pins_stopped power_on =
     (False, 4000, \<lparr>PORTB = 8, DDRB = 0, ACSR = 0, reads = 35, clock = 4000\<rparr>) \<and>
   clock (cranking pins_stopped power_on) = 4000 \<and>
   clock (cranking pins_running power_on) = 1100 \<and>
   \<not> relay_on (cranking pins_stopped power_on)"
proof -
  have quiet: "\<forall>i<35. \<not> pin_started (pins_stopped (reads power_on + i))"
    by (simp add: pins_stopped_def pin_started_def IN_L_def BV_def PINB5_def)
  have entry: "(cranking_entry power_on)\<lparr>reads := reads power_on + 35,
                 clock := clock power_on + CRANKING_MAX_TIME\<rparr> =
               \<lparr>PORTB = 8, DDRB = 0, ACSR = 0, reads = 35, clock = 4000\<rparr>"
    by code_simp
  have fast: "fst (snd (cranking_exit pins_running power_on)) = 1100"
    by code_simp
  show ?thesis
    using cranking_bounded [of pins_stopped power_on] cranking_bounded [of pins_running power_on]
      quiet entry fast
    by (simp add: power_on_def CRANKING_MAX_TIME_def)
qed

text \<open>
  C5, as the code has it. No poll looks at the engine before \<open>cranking_time\<close> has passed
  \<open>START_CHECK_DELAY_TIME\<close>: the loop reaches \<open>cranking_time = 500\<close> without a read
  of the port, so the first read of a call is made by the poll at 600 ms, the next by the
  poll at 700 ms, and so on. When the six polls from 600 ms to 1100 ms all see the engine
  running, the loop is left by \<open>break\<close> with \<open>cranking_time\<close> equal to
  \<open>START_CHECK_DELAY_TIME + POLLING_INTERVAL + START_THRESHOLD_TIME = 1100\<close>, after
  exactly these six reads and 1100 ms.
\<close>

theorem confirmed_start_exit:
  "cranking_exit pinb s =
     cranking_loop pinb 0 START_CHECK_DELAY_TIME
       ((cranking_entry s)\<lparr>clock := clock s + START_CHECK_DELAY_TIME\<rparr>) \<and>
   ((\<forall>i<6. pin_started (pinb (reads s + i))) \<longrightarrow>
      cranking_exit pinb s =
        (True, START_CHECK_DELAY_TIME + POLLING_INTERVAL + START_THRESHOLD_TIME,
         (cranking_entry s)\<lparr>reads := reads s + 6,
           clock := clock s + (START_CHECK_DELAY_TIME + POLLING_INTERVAL + START_THRESHOLD_TIME)\<rparr>))"
proof -
  let ?s = "(cranking_entry s)\<lparr>clock := clock s + 500\<rparr>"
  have delay: "cranking_exit pinb s = cranking_loop pinb 0 500 ?s"
    using cranking_loop_delay [of pinb "cranking_entry s"]
    by (simp add: cranking_exit_def cranking_entry_def)
  have "cranking_loop pinb 0 500 ?s =
          (True, 1100, ?s\<lparr>reads := reads ?s + 6, clock := clock ?s + 600\<rparr>)"
    if "\<forall>i<6. pin_started (pinb (reads s + i))"
    using that by (intro cranking_loop_confirm) (simp add: cranking_entry_def)
  then show ?thesis
    using delay by (simp add: timing_defs cranking_entry_def)
qed

theorem confirmed_start_exit_witness:
  "cranking_exit pins_running power_on =
     (True, 1100, \<lparr>PORTB = 8, DDRB = 0, ACSR = 0, reads = 6, clock = 1100\<rparr>)"
proof -
  have run: "\<forall>i<6. pin_started (pins_running (reads power_on + i))"
    by (simp add: pins_running_def pin_started_def)
  have "(cranking_entry power_on)\<lparr>reads := reads power_on + 6,
           clock := clock power_on + (START_CHECK_DELAY_TIME + POLLING_INTERVAL + START_THRESHOLD_TIME)\<rparr> =
        \<lparr>PORTB = 8, DDRB = 0, ACSR = 0, reads = 6, clock = 1100\<rparr>"
    by code_simp
  then show ?thesis
    using confirmed_start_exit [of pins_running power_on, THEN conjunct2] run
    by (simp add: timing_defs)
qed

text \<open>
  C5 as the specification states it fails. With \<open>pins_blip\<close>, in a call entered at
  \<open>power_on\<close> (no read made before), the polls at 600, 700, 800, 900 and 1000 ms (reads
  0 to 4) see the engine running, so that it is seen running at every look from the delay
  to the delay plus the threshold; the poll at 1100 ms does not see it running, and the
  loop is not left by \<open>break\<close> near 1000 ms but through its condition at 4000 ms.
\<close>

theorem confirmed_start_exit_counterexample:
  "reads power_on = 0 \<and>
   pin_started (pins_blip 0) \<and> pin_started (pins_blip 1) \<and> pin_started (pins_blip 2) \<and>
   pin_started (pins_blip 3) \<and> pin_started (pins_blip 4) \<and>
   cranking_exit pins_blip power_on =
     (False, 4000, \<lparr>PORTB = 8, DDRB = 0, ACSR = 0, reads = 35, clock = 4000\<rparr>)"
  by code_simp



section \<open>The entry of cranking\<close>

text \<open>
  C7, as the code has it. At its entry \<open>cranking\<close> switches the relay on and clears
  \<open>OUT_N\<close>, which is the level by which \<open>transferShiftPosition\<close> reports neutral:
  the shift position is faked as neutral. Neither the delay nor the look at the engine
  writes \<open>PORTB\<close>, so the output stays so from the entry to the end of the loop, whatever
  the loop's arguments; on return the relay is off and the output still reports neutral.
\<close>

theorem cranking_fakes_neutral:
  "relay_on (cranking_entry s) \<and> reports_neutral (cranking_entry s) \<and>
   PORTB (delay_ms ms s) = PORTB s \<and> PORTB (snd (isStarted pinb s)) = PORTB s \<and>
   PORTB (snd (snd (cranking_loop pinb st ct (cranking_entry s)))) = PORTB (cranking_entry s) \<and>
   PORTB (snd (snd (cranking_exit pinb s))) = PORTB (cranking_entry s) \<and>
   \<not> relay_on (cranking pinb s) \<and> reports_neutral (cranking pinb s)"
  by (simp add: cranking_entry_out cranking_loop_PORTB cranking_exit_def)

text \<open>
  In the third iteration of \<open>pins_restart\<close> the lever is not in neutral and the output
  says so when \<open>cranking\<close> is called; the call makes it report neutral.
\<close>

theorem cranking_fakes_neutral_witness:
  "d_fire (main_decide pins_restart (main_loop pins_restart 2 (main_start pins_restart power_on))) \<and>
   \<not> pin_neutral (d_input (main_decide pins_restart
          (main_loop pins_restart 2 (main_start pins_restart power_on)))) \<and>
   \<not> reports_neutral (d_state (main_decide pins_restart
          (main_loop pins_restart 2 (main_start pins_restart power_on)))) \<and>
   reports_neutral (cranking_entry (d_state (main_decide pins_restart
          (main_loop pins_restart 2 (main_start pins_restart power_on))))) \<and>
   reports_neutral (snd (snd (cranking_exit pins_restart (d_state (main_decide pins_restart
          (main_loop pins_restart 2 (main_start pins_restart power_on)))))))"
proof -
  let ?s = "d_state (main_decide pins_restart
              (main_loop pins_restart 2 (main_start pins_restart power_on)))"
  have "d_fire (main_decide pins_restart (main_loop pins_restart 2 (main_start pins_restart power_on))) \<and>
        \<not> pin_neutral (d_input (main_decide pins_restart
          (main_loop pins_restart 2 (main_start pins_restart power_on)))) \<and>
        \<not> reports_neutral ?s"
    by code_simp
  then show ?thesis
    using cranking_fakes_neutral [of ?s 0 pins_restart 0 0]
    by (simp add: reports_neutral_def)
qed

text \<open>
  C7 as the specification states it fails: in the state in which the third iteration of
  \<open>pins_restart\<close> calls \<open>cranking\<close>, the entry does not leave the relay on with the
  output reporting a position other than neutral.
\<close>

theorem cranking_fakes_neutral_counterexample:
  "\<not> (relay_on (cranking_entry (d_state (main_decide pins_restart
            (main_loop pins_restart 2 (main_start pins_restart power_on))))) \<and>
       \<not> reports_neutral (cranking_entry (d_state (main_decide pins_restart
            (main_loop pins_restart 2 (main_start pins_restart power_on))))))"
  by code_simp

section \<open>The override\<close>

text \<open>
  C8, as the code has it. When the override is read on at every read, an iteration calls
  \<open>cranking\<close> exactly when the flag is set and the engine is not running at the first
  look of the iteration: no brake edge is needed and nothing else delays the call. When
  the engine is then not running at the look that follows the call, the flag is cleared,
  and no later iteration calls \<open>cranking\<close> before an iteration has seen the engine
  running at its first look.
\<close>

theorem override_retry:
  "(\<forall>i. pin_disabled (pinb i)) \<Longrightarrow>
   d_fire (main_decide pinb cs) =
     (isManualStarted (fst cs) \<and> \<not> d_started (main_decide pinb cs)) \<and>
   (d_fire (main_decide pinb cs) \<and>
    \<not> pin_started (pinb (reads (cranking pinb (d_state (main_decide pinb cs))))) \<longrightarrow>
      \<not> isManualStarted (fst (main_iteration pinb cs)) \<and>
      ((\<forall>j<k. \<not> d_started (main_decide pinb (main_loop pinb j (main_iteration pinb cs)))) \<longrightarrow>
         \<not> d_fire (main_decide pinb (main_loop pinb k (main_iteration pinb cs)))))"
proof -
  assume on: "\<forall>i. pin_disabled (pinb i)"
  have "d_fire (main_decide pinb cs) =
          (isManualStarted (fst cs) \<and> \<not> d_started (main_decide pinb cs))"
    using on by (cases cs) (simp add: main_decide_fire)
  moreover have "\<not> d_fire (main_decide pinb (main_loop pinb k (main_iteration pinb cs)))"
    if "\<not> isManualStarted (fst (main_iteration pinb cs))"
      and "\<forall>j<k. \<not> d_started (main_decide pinb (main_loop pinb j (main_iteration pinb cs)))"
    using flag_stays_off [OF that]
      d_fire_flag [of pinb "main_loop pinb k (main_iteration pinb cs)"]
    by blast
  ultimately show ?thesis
    by (auto simp add: main_iteration_flag)
qed

text \<open>The second and the third iteration of \<open>pins_stall\<close>.\<close>

theorem override_retry_witness:
  "isManualStarted (fst (main_loop pins_stall 1 (main_start pins_stall power_on))) \<and>
   d_fire (main_decide pins_stall (main_loop pins_stall 1 (main_start pins_stall power_on))) \<and>
   \<not> isManualStarted (fst (main_iteration pins_stall
        (main_loop pins_stall 1 (main_start pins_stall power_on)))) \<and>
   \<not> d_fire (main_decide pins_stall (main_iteration pins_stall
        (main_loop pins_stall 1 (main_start pins_stall power_on))))"
proof -
  let ?cs = "main_loop pins_stall 1 (main_start pins_stall power_on)"
  have on: "\<forall>i. pin_disabled (pins_stall i)"
    by (simp add: pins_stall_override)
  have armed: "isManualStarted (fst ?cs) \<and> \<not> d_started (main_decide pins_stall ?cs)"
    by code_simp
  have fail: "\<not> pin_started (pins_stall (reads (cranking pins_stall
                  (d_state (main_decide pins_stall ?cs)))))"
    by code_simp
  show ?thesis
    using override_retry [OF on, of ?cs 0] armed fail by simp
qed

text \<open>
  C8 as the specification states it fails. In \<open>pins_stall\<close> the override is on at every
  read. At the second iteration the flag is set and the engine is stopped, and
  \<open>cranking\<close> is called; the engine does not start. At the third iteration the override
  is still on and the engine still stopped, and \<open>cranking\<close> is not called.
\<close>

theorem override_retry_counterexample:
  "isManualStarted (fst (main_loop pins_stall 1 (main_start pins_stall power_on))) \<and>
   \<not> d_started (main_decide pins_stall (main_loop pins_stall 1 (main_start pins_stall power_on))) \<and>
   pin_disabled (d_input (main_decide pins_stall
       (main_loop pins_stall 1 (main_start pins_stall power_on)))) \<and>
   d_fire (main_decide pins_stall (main_loop pins_stall 1 (main_start pins_stall power_on))) \<and>
   \<not> d_started (main_decide pins_stall (main_loop pins_stall 2 (main_start pins_stall power_on))) \<and>
   pin_disabled (d_input (main_decide pins_stall
       (main_loop pins_stall 2 (main_start pins_stall power_on)))) \<and>
   \<not> d_fire (main_decide pins_stall (main_loop pins_stall 2 (main_start pins_stall power_on)))"
  by code_simp

section \<open>The reads of the port within one iteration\<close>

text \<open>
  C9, as the code has it. An iteration does not work on one snapshot of the port; it
  reads the port several times, and each input is taken from a read of its own:
  \<^item> the first read gives the engine state that updates the flag and enters the condition;
  \<^item> the second read is the snapshot \<open>input\<close>: its brake bit is compared with the one
    of \<open>lastInput\<close>, and it becomes the next \<open>lastInput\<close>;
  \<^item> when the flag is set and the engine not running, the brake is read again (third read,
    only when the brake bits differ) and the override is read (fourth read, or third when
    the brake bits do not differ);
  \<^item> after a call of \<open>cranking\<close> the engine is read again, and that read decides
    whether the flag is kept;
  \<^item> the report takes the override and neutral from two further reads, the last of the
    iteration.
  The iteration depends on the port only through these reads: two runs that are in the
  same state at the start of an iteration and whose ports return the same value at each
  read the iteration makes end it in the same state, with the same outputs.
\<close>

theorem iteration_reads:
  "d_started (main_decide a (c, s)) = pin_started (a (reads s)) \<and>
   d_flag (main_decide a (c, s)) = (isManualStarted c \<or> pin_started (a (reads s))) \<and>
   d_input (main_decide a (c, s)) = a (Suc (reads s)) \<and>
   d_fire (main_decide a (c, s)) =
     (d_flag (main_decide a (c, s)) \<and> \<not> d_started (main_decide a (c, s)) \<and>
      (if pin_brake_released (lastInput c) \<noteq> pin_brake_released (d_input (main_decide a (c, s)))
       then pin_brake_released (a (Suc (Suc (reads s)))) \<or>
            pin_disabled (a (Suc (Suc (Suc (reads s)))))
       else pin_disabled (a (Suc (Suc (reads s)))))) \<and>
   isManualStarted (fst (main_iteration a (c, s))) =
     (d_flag (main_decide a (c, s)) \<and>
      (if d_fire (main_decide a (c, s))
       then pin_started (a (reads (cranking a (d_state (main_decide a (c, s))))))
       else True)) \<and>
   lastInput (fst (main_iteration a (c, s))) = d_input (main_decide a (c, s)) \<and>
   Suc (Suc (reads s)) \<le> reads (snd (main_before_report a (c, s))) \<and>
   reports_neutral (snd (main_iteration a (c, s))) =
     (pin_disabled (a (reads (snd (main_before_report a (c, s))))) \<or>
      pin_neutral (a (Suc (reads (snd (main_before_report a (c, s))))))) \<and>
   (same_reads a b (reads s) (reads (snd (main_iteration a (c, s)))) \<longrightarrow>
      main_iteration a (c, s) = main_iteration b (c, s))"
proof -
  have "lastInput (fst (main_iteration a (c, s))) = d_input (main_decide a (c, s))"
    by (simp add: main_iteration_def main_before_report_def split_beta Let_def)
  moreover have "reports_neutral (snd (main_iteration a (c, s))) =
     (pin_disabled (a (reads (snd (main_before_report a (c, s))))) \<or>
      pin_neutral (a (Suc (reads (snd (main_before_report a (c, s)))))))"
    by (simp add: main_iteration_def split_beta transferShiftPosition_neutral)
  moreover have "d_fire (main_decide a (c, s)) =
     (d_flag (main_decide a (c, s)) \<and> \<not> d_started (main_decide a (c, s)) \<and>
      (if pin_brake_released (lastInput c) \<noteq> pin_brake_released (d_input (main_decide a (c, s)))
       then pin_brake_released (a (Suc (Suc (reads s)))) \<or>
            pin_disabled (a (Suc (Suc (Suc (reads s)))))
       else pin_disabled (a (Suc (Suc (reads s))))))"
    by (auto simp add: main_decide_fire)
  moreover have "isManualStarted (fst (main_iteration a (c, s))) =
     (d_flag (main_decide a (c, s)) \<and>
      (if d_fire (main_decide a (c, s))
       then pin_started (a (reads (cranking a (d_state (main_decide a (c, s))))))
       else True))"
    by (simp add: main_iteration_flag)
  ultimately show ?thesis
    using main_before_report_later [of "(c, s)" a] main_iteration_same [of a b s c]
    by simp
qed

text \<open>
  The third iteration of \<open>pins_restart\<close> sees the brake go from depressed to released
  and calls \<open>cranking\<close>; it makes the reads 12 to 23. \<open>pins_restart_alt\<close> differs
  from \<open>pins_restart\<close> before and after these reads.
\<close>

theorem iteration_reads_witness:
  "pins_restart 0 \<noteq> pins_restart_alt 0 \<and> pins_restart 24 \<noteq> pins_restart_alt 24 \<and>
   \<not> pin_brake_released 32 \<and>
   pin_brake_released (d_input (main_decide pins_restart
     (\<lparr>isManualStarted = True, lastInput = 32\<rparr>,
      \<lparr>PORTB = 23, DDRB = 24, ACSR = 128, reads = 12, clock = 200\<rparr>))) \<and>
   d_fire (main_decide pins_restart
     (\<lparr>isManualStarted = True, lastInput = 32\<rparr>,
      \<lparr>PORTB = 23, DDRB = 24, ACSR = 128, reads = 12, clock = 200\<rparr>)) \<and>
   main_iteration pins_restart
     (\<lparr>isManualStarted = True, lastInput = 32\<rparr>,
      \<lparr>PORTB = 23, DDRB = 24, ACSR = 128, reads = 12, clock = 200\<rparr>) =
   main_iteration pins_restart_alt
     (\<lparr>isManualStarted = True, lastInput = 32\<rparr>,
      \<lparr>PORTB = 23, DDRB = 24, ACSR = 128, reads = 12, clock = 200\<rparr>)"
proof -
  let ?c = "\<lparr>isManualStarted = True, lastInput = 32\<rparr>"
  let ?s = "\<lparr>PORTB = 23, DDRB = 24, ACSR = 128, reads = 12, clock = 200\<rparr>"
  have "reads (snd (main_iteration pins_restart (?c, ?s))) = 24"
    by code_simp
  then have "same_reads pins_restart pins_restart_alt (reads ?s)
               (reads (snd (main_iteration pins_restart (?c, ?s))))"
    by (simp add: same_reads_def pins_restart_def pins_restart_alt_def)
  with iteration_reads [of pins_restart ?c ?s pins_restart_alt]
  have "main_iteration pins_restart (?c, ?s) = main_iteration pins_restart_alt (?c, ?s)"
    by blast
  moreover have "pins_restart 0 \<noteq> pins_restart_alt 0 \<and> pins_restart 24 \<noteq> pins_restart_alt 24 \<and>
      \<not> pin_brake_released 32 \<and>
      pin_brake_released (d_input (main_decide pins_restart (?c, ?s))) \<and>
      d_fire (main_decide pins_restart (?c, ?s))"
    by code_simp
  ultimately show ?thesis by simp
qed

text \<open>
  C9 as the specification states it fails. The runs \<open>pins_stopped\<close> and
  \<open>pins_glitch\<close> are in the same state when the loop of \<open>main\<close> is entered, and
  the port returns the same value in both at the one read that takes the snapshot
  \<open>input\<close> of the first iteration (read 4). The engine is looked at before (read 3) and
  the shift position is reported from later reads (read 5 and 6): after the iteration the
  flag is set in one run and clear in the other, and one run reports neutral and the other
  does not.
\<close>

theorem iteration_reads_counterexample:
  "main_start pins_glitch power_on = main_start pins_stopped power_on \<and>
   reads (snd (main_start pins_stopped power_on)) = 3 \<and>
   pins_glitch 4 = pins_stopped 4 \<and>
   d_input (main_decide pins_glitch (main_start pins_glitch power_on)) =
     d_input (main_decide pins_stopped (main_start pins_stopped power_on)) \<and>
   isManualStarted (fst (main_iteration pins_glitch (main_start pins_glitch power_on))) \<and>
   \<not> isManualStarted (fst (main_iteration pins_stopped (main_start pins_stopped power_on))) \<and>
   reports_neutral (snd (main_iteration pins_glitch (main_start pins_glitch power_on))) \<and>
   \<not> reports_neutral (snd (main_iteration pins_stopped (main_start pins_stopped power_on)))"
  by code_simp

end
